theory Spec2Isabelle
  imports Main "HOL-Library.Sublist"
begin

section \<open>The per-file hook of \<^verbatim>\<open>assets/add_new_tags_to_all.py\<close>\<close>

text \<open>
  The script subclasses the file iterator and overrides one method:
  \<^verbatim>\<open>
  def process_file(self, path, dryrun):
      if dryrun:
          return path
      with open(path, "r") as infile:
          buffer = infile.read()
      if "Padding" in buffer:
          return path
      buffer = buffer.replace("  </Asset>", <padding line + "  </Asset>">)
      with open(path, "w") as outfile:
          outfile.write(buffer)
  \<close>
  The method is embedded as a function on an explicit file system. File content is the
  text that \<^verbatim>\<open>read()\<close> returns and \<^verbatim>\<open>write()\<close> accepts; the byte
  encoding and the newline translation of text mode lie below this model.
\<close>

subsection \<open>Strings\<close>

text \<open>\<^verbatim>\<open>sub in s\<close>: a plain substring search.\<close>

fun str_contains :: "string \<Rightarrow> string \<Rightarrow> bool" where
  "str_contains sub [] = (sub = [])"
| "str_contains sub (c # cs) = (prefix sub (c # cs) \<or> str_contains sub cs)"

text \<open>
  \<^verbatim>\<open>s.replace(old, new)\<close> without a count: a scan from the left that replaces each
  occurrence it meets and resumes behind it. An empty \<^verbatim>\<open>old\<close> matches before every
  character and at the end.
\<close>

function str_replace :: "string \<Rightarrow> string \<Rightarrow> string \<Rightarrow> string" where
  "str_replace old new [] = (if old = [] then new else [])"
| "str_replace old new (c # cs) =
     (if old = [] then new @ c # str_replace old new cs
      else if prefix old (c # cs)
        then new @ str_replace old new (drop (length old) (c # cs))
      else c # str_replace old new cs)"
  by pat_completeness auto
termination
  by (relation "measure (\<lambda>(old, new, s). length s)") auto

text \<open>\<^verbatim>\<open>sep.join(segs)\<close>, used to describe a text by the pieces between its tags.\<close>

fun str_join :: "string \<Rightarrow> string list \<Rightarrow> string" where
  "str_join sep [] = []"
| "str_join sep [s] = s"
| "str_join sep (s # t # ts) = s @ sep @ str_join sep (t # ts)"

text \<open>The three literals of the method.\<close>

definition marker :: string where
  "marker = ''Padding''"

definition closing_tag :: string where
  "closing_tag = ''  </Asset>''"

definition padding_line :: string where
  "padding_line = ''    <Padding Null='' @ [CHR 0x22] @ ''true'' @ [CHR 0x22] @ '' />'' @ [CHR 0x0A]"

definition replacement :: string where
  "replacement = ''    <Padding Null='' @ [CHR 0x22] @ ''true'' @ [CHR 0x22] @ '' />''
     @ [CHR 0x0A] @ ''  </Asset>''"

text \<open>
  What a reading that stops at the first occurrence would compute
  (\<^verbatim>\<open>s.replace(old, new, 1)\<close>); the method does not call it.
\<close>

fun replace_first :: "string \<Rightarrow> string \<Rightarrow> string \<Rightarrow> string" where
  "replace_first old new [] = (if old = [] then new else [])"
| "replace_first old new (c # cs) =
     (if prefix old (c # cs) then new @ drop (length old) (c # cs)
      else c # replace_first old new cs)"

subsection \<open>The file system\<close>

type_synonym path = string

datatype io_error = FileNotFoundError | IsADirectoryError | PermissionError | UnicodeDecodeError

datatype file_data = Text string | Undecodable

datatype node = Directory | RegularFile (readable: bool) (writable: bool) (data: file_data)

datatype event = OpenRead path | ReadAll path | OpenWrite path | WriteAll path string

record world =
  files :: "path \<Rightarrow> node option"
  trace :: "event list"

definition log_event :: "event \<Rightarrow> world \<Rightarrow> world" where
  "log_event e w = w\<lparr>trace := trace w @ [e]\<rparr>"

fun is_write_event :: "event \<Rightarrow> bool" where
  "is_write_event (OpenRead p) = False"
| "is_write_event (ReadAll p) = False"
| "is_write_event (OpenWrite p) = True"
| "is_write_event (WriteAll p s) = True"

text \<open>The text of a file, when the path names a regular file that decodes.\<close>

fun content :: "world \<Rightarrow> path \<Rightarrow> string option" where
  "content w p =
     (case files w p of
        Some (RegularFile r wr (Text s)) \<Rightarrow> Some s
      | _ \<Rightarrow> None)"

text \<open>
  \<^verbatim>\<open>with open(path, "r") as infile: buffer = infile.read()\<close>.
  Every call is logged before its outcome is known.
\<close>

definition read_file :: "world \<Rightarrow> path \<Rightarrow> (io_error + string) \<times> world" where
  "read_file w p =
     (let w1 = log_event (OpenRead p) w in
      case files w p of
        None \<Rightarrow> (Inl FileNotFoundError, w1)
      | Some Directory \<Rightarrow> (Inl IsADirectoryError, w1)
      | Some (RegularFile r wr d) \<Rightarrow>
          if r then
            (case d of
               Undecodable \<Rightarrow> (Inl UnicodeDecodeError, log_event (ReadAll p) w1)
             | Text s \<Rightarrow> (Inr s, log_event (ReadAll p) w1))
          else (Inl PermissionError, w1))"

text \<open>
  \<^verbatim>\<open>with open(path, "w") as outfile: outfile.write(buffer)\<close>.
  Opening for writing creates a missing file and truncates an existing one.
\<close>

definition write_file :: "world \<Rightarrow> path \<Rightarrow> string \<Rightarrow> (io_error + unit) \<times> world" where
  "write_file w p buf =
     (let w1 = log_event (OpenWrite p) w in
      case files w p of
        None \<Rightarrow>
          (Inr (), log_event (WriteAll p buf)
                     (w1\<lparr>files := (files w1)(p \<mapsto> RegularFile True True (Text buf))\<rparr>))
      | Some Directory \<Rightarrow> (Inl IsADirectoryError, w1)
      | Some (RegularFile r wr d) \<Rightarrow>
          if wr then
            (Inr (), log_event (WriteAll p buf)
                       (w1\<lparr>files := (files w1)(p \<mapsto> RegularFile r wr (Text buf))\<rparr>))
          else (Inl PermissionError, w1))"

subsection \<open>The method\<close>

text \<open>What a call hands back: the path, or \<^verbatim>\<open>None\<close> when the body runs off its end.\<close>

datatype retval = RetPath path | RetNone

definition process_file :: "world \<Rightarrow> path \<Rightarrow> bool \<Rightarrow> (io_error + retval) \<times> world" where
  "process_file w path dryrun =
     (if dryrun then (Inr (RetPath path), w)
      else
        (case read_file w path of
           (Inl e, w1) \<Rightarrow> (Inl e, w1)
         | (Inr buffer, w1) \<Rightarrow>
             if str_contains marker buffer then (Inr (RetPath path), w1)
             else
               (case write_file w1 path (str_replace closing_tag replacement buffer) of
                  (Inl e, w2) \<Rightarrow> (Inl e, w2)
                | (Inr u, w2) \<Rightarrow> (Inr RetNone, w2))))"

subsection \<open>Example worlds\<close>

text \<open>
  A world holding one readable, writable text file, one holding a file that may be read but
  not written, and the world without files.
\<close>

definition single_file :: "path \<Rightarrow> string \<Rightarrow> world" where
  "single_file p s = \<lparr>files = [p \<mapsto> RegularFile True True (Text s)], trace = []\<rparr>"

definition read_only_file :: "path \<Rightarrow> string \<Rightarrow> world" where
  "read_only_file p s = \<lparr>files = [p \<mapsto> RegularFile True False (Text s)], trace = []\<rparr>"

definition no_files :: world where
  "no_files = \<lparr>files = Map.empty, trace = []\<rparr>"

section \<open>Facts about the strings\<close>

lemma replacement_split: "replacement = padding_line @ closing_tag"
  by (simp add: replacement_def padding_line_def closing_tag_def)

lemma str_contains_prefix: "prefix sub s \<Longrightarrow> str_contains sub s"
  by (cases s) auto

lemma str_contains_append_left: "str_contains sub s \<Longrightarrow> str_contains sub (a @ s)"
  by (induction a) auto

lemma str_contains_infix: "str_contains sub (a @ sub @ b)"
  by (rule str_contains_append_left) (simp add: str_contains_prefix)

lemma str_contains_iff: "str_contains sub s \<longleftrightarrow> (\<exists>a b. s = a @ sub @ b)"
proof
  show "str_contains sub s \<Longrightarrow> \<exists>a b. s = a @ sub @ b"
  proof (induction s)
    case Nil
    then show ?case by simp
  next
    case (Cons c cs)
    show ?case
    proof (cases "prefix sub (c # cs)")
      case True
      then obtain b where "c # cs = sub @ b" by (auto simp: prefix_def)
      then have "c # cs = [] @ sub @ b" by simp
      then show ?thesis by blast
    next
      case False
      with Cons.prems have "str_contains sub cs" by simp
      then obtain a b where "cs = a @ sub @ b" using Cons.IH by blast
      then have "c # cs = (c # a) @ sub @ b" by simp
      then show ?thesis by blast
    qed
  qed
next
  show "\<exists>a b. s = a @ sub @ b \<Longrightarrow> str_contains sub s"
    using str_contains_infix by blast
qed

lemma str_replace_absent: "\<not> str_contains old s \<Longrightarrow> str_replace old new s = s"
  by (induction s) auto

lemma marker_in_replacement: "str_contains marker (replacement @ s)"
proof -
  have "replacement @ s = ''    <'' @ marker @ ('' Null='' @ [CHR 0x22] @ ''true'' @ [CHR 0x22] @ '' />'' @ [CHR 0x0A] @ ''  </Asset>'' @ s)"
    by (simp add: replacement_def marker_def)
  then show ?thesis using str_contains_infix by metis
qed

lemma closing_tag_nonempty: "closing_tag \<noteq> []"
  by (simp add: closing_tag_def)

lemma str_replace_inserts_marker:
  "str_contains closing_tag s \<Longrightarrow> str_contains marker (str_replace closing_tag replacement s)"
proof (induction s)
  case Nil
  then show ?case by (simp add: closing_tag_nonempty)
next
  case (Cons c cs)
  show ?case
  proof (cases "prefix closing_tag (c # cs)")
    case True
    then show ?thesis by (simp add: closing_tag_nonempty marker_in_replacement)
  next
    case False
    with Cons.prems have "str_contains closing_tag cs" by simp
    then have "str_contains marker (str_replace closing_tag replacement cs)" by (rule Cons.IH)
    with False show ?thesis by (simp add: closing_tag_nonempty)
  qed
qed


lemma closing_tag_length: "length closing_tag = 10"
  by (simp add: closing_tag_def)

lemma closing_tag_unbordered:
  assumes "0 < d" and "d < 10"
  shows "\<not> prefix (drop d closing_tag) closing_tag"
proof -
  from assms have "d = 1 \<or> d = 2 \<or> d = 3 \<or> d = 4 \<or> d = 5 \<or> d = 6 \<or> d = 7 \<or> d = 8 \<or> d = 9"
    by arith
  then show ?thesis
    by (elim disjE) (simp_all add: closing_tag_def)
qed

lemma closing_tag_no_straddle:
  assumes free: "\<not> str_contains closing_tag t" and ne: "t \<noteq> []"
  shows "\<not> prefix closing_tag (t @ closing_tag @ r)"
proof
  assume "prefix closing_tag (t @ closing_tag @ r)"
  then consider "prefix closing_tag t"
    | us where "closing_tag = t @ us" and "prefix us (closing_tag @ r)"
    by (auto simp: prefix_append)
  then show False
  proof cases
    case 1
    then show False using free str_contains_prefix by blast
  next
    case 2
    have len: "length t + length us = 10"
      using 2(1) closing_tag_length by (metis length_append)
    have tpos: "0 < length t" using ne by simp
    have "us \<noteq> []"
    proof
      assume "us = []"
      with 2(1) have "t = closing_tag" by simp
      then show False using free str_contains_prefix by blast
    qed
    then have lt: "length t < 10" using len by (cases us) auto
    have us: "us = drop (length t) closing_tag" by (simp add: 2(1))
    have "prefix us closing_tag"
      using 2(2) len tpos closing_tag_length by (auto simp: prefix_append)
    then show False using closing_tag_unbordered [OF tpos lt] us by simp
  qed
qed

lemma str_replace_at_occurrence:
  "old \<noteq> [] \<Longrightarrow> str_replace old new (old @ r) = new @ str_replace old new r"
  by (cases old) simp_all

lemma str_replace_first_occurrence:
  "\<not> str_contains closing_tag s \<Longrightarrow>
   str_replace closing_tag new (s @ closing_tag @ r) = s @ new @ str_replace closing_tag new r"
proof (induction s)
  case Nil
  then show ?case
    by (simp add: str_replace_at_occurrence closing_tag_nonempty)
next
  case (Cons c cs)
  have "\<not> prefix closing_tag ((c # cs) @ closing_tag @ r)"
    using Cons.prems by (intro closing_tag_no_straddle) simp_all
  moreover have "\<not> str_contains closing_tag cs" using Cons.prems by simp
  ultimately show ?case using Cons.IH by (simp add: closing_tag_nonempty)
qed

lemma str_replace_join:
  "list_all (\<lambda>s. \<not> str_contains closing_tag s) segs \<Longrightarrow>
   str_replace closing_tag new (str_join closing_tag segs) = str_join new segs"
proof (induction closing_tag segs rule: str_join.induct)
  case 1
  then show ?case by (simp add: closing_tag_nonempty)
next
  case (2 s)
  then show ?case by (simp add: str_replace_absent)
next
  case (3 s t ts)
  then show ?case by (simp add: str_replace_first_occurrence)
qed

lemma str_join_Cons_head: "str_join sep ((c # g) # gs) = c # str_join sep (g # gs)"
  by (cases gs) simp_all

lemma str_join_head_prefix: "prefix g (str_join sep (g # gs))"
  by (cases gs) simp_all

lemma str_join_decomposition:
  assumes "old \<noteq> []"
  shows "\<exists>segs. segs \<noteq> [] \<and> s = str_join old segs \<and> list_all (\<lambda>g. \<not> str_contains old g) segs"
proof (induction s rule: length_induct)
  case (1 s)
  show ?case
  proof (cases s)
    case Nil
    have "[[]] \<noteq> [] \<and> s = str_join old [[]] \<and> list_all (\<lambda>g. \<not> str_contains old g) [[]]"
      using Nil assms by simp
    then show ?thesis by blast
  next
    case (Cons c cs)
    show ?thesis
    proof (cases "prefix old s")
      case True
      then obtain r where r: "s = old @ r" by (auto simp: prefix_def)
      then have "length r < length s" using assms by simp
      with 1 obtain segs where segs: "segs \<noteq> []" "r = str_join old segs"
        "list_all (\<lambda>g. \<not> str_contains old g) segs" by blast
      from segs(1) obtain g gs where "segs = g # gs" by (cases segs) auto
      with r segs have "[] # segs \<noteq> [] \<and> s = str_join old ([] # segs) \<and>
          list_all (\<lambda>g. \<not> str_contains old g) ([] # segs)"
        using assms by simp
      then show ?thesis by blast
    next
      case False
      have "length cs < length s" using Cons by simp
      with 1 obtain segs where segs: "segs \<noteq> []" "cs = str_join old segs"
        "list_all (\<lambda>g. \<not> str_contains old g) segs" by blast
      from segs(1) obtain g gs where g: "segs = g # gs" by (cases segs) auto
      have s: "s = str_join old ((c # g) # gs)"
        using Cons segs(2) g by (simp add: str_join_Cons_head)
      have "\<not> prefix old (c # g)"
      proof
        assume "prefix old (c # g)"
        moreover have "prefix (c # g) s" using s str_join_head_prefix by simp
        ultimately show False using False by auto
      qed
      moreover have "\<not> str_contains old g" using segs(3) g by simp
      ultimately have "\<not> str_contains old (c # g)" by simp
      with segs(3) g s have "(c # g) # gs \<noteq> [] \<and> s = str_join old ((c # g) # gs) \<and>
          list_all (\<lambda>g. \<not> str_contains old g) ((c # g) # gs)" by simp
      then show ?thesis by blast
    qed
  qed
qed

section \<open>Facts about the file system and the method\<close>

lemma read_file_files: "files (snd (read_file w p)) = files w"
  by (simp add: read_file_def log_event_def Let_def split: option.split node.split file_data.split)

lemma read_file_writes:
  "filter is_write_event (trace (snd (read_file w p))) = filter is_write_event (trace w)"
  by (simp add: read_file_def log_event_def Let_def split: option.split node.split file_data.split)

lemma read_file_Inr:
  "fst (read_file w p) = Inr buf \<longleftrightarrow> (\<exists>wr. files w p = Some (RegularFile True wr (Text buf)))"
  by (auto simp: read_file_def log_event_def Let_def split: option.split node.split file_data.split)

lemma read_file_Inr_world:
  "fst (read_file w p) = Inr buf \<Longrightarrow>
   snd (read_file w p) = w\<lparr>trace := trace w @ [OpenRead p, ReadAll p]\<rparr>"
  by (auto simp: read_file_def log_event_def Let_def split: option.splits node.splits file_data.splits if_splits)

lemma write_file_writable:
  "files w p = Some (RegularFile r True d) \<Longrightarrow>
   write_file w p buf =
     (Inr (), \<lparr>files = (files w)(p \<mapsto> RegularFile r True (Text buf)),
               trace = trace w @ [OpenWrite p, WriteAll p buf]\<rparr>)"
  by (simp add: write_file_def log_event_def Let_def)

lemma write_file_readonly:
  "files w p = Some (RegularFile r False d) \<Longrightarrow>
   write_file w p buf = (Inl PermissionError, w\<lparr>trace := trace w @ [OpenWrite p]\<rparr>)"
  by (simp add: write_file_def log_event_def Let_def)

lemma process_file_dryrun: "process_file w p True = (Inr (RetPath p), w)"
  by (simp add: process_file_def)

lemma process_file_read_error:
  "fst (read_file w p) = Inl e \<Longrightarrow> process_file w p False = (Inl e, snd (read_file w p))"
  by (cases "read_file w p") (simp add: process_file_def)

lemma process_file_marked:
  "fst (read_file w p) = Inr buf \<Longrightarrow> str_contains marker buf \<Longrightarrow>
   process_file w p False = (Inr (RetPath p), snd (read_file w p))"
  by (cases "read_file w p") (simp add: process_file_def)

lemma process_file_unmarked:
  "fst (read_file w p) = Inr buf \<Longrightarrow> \<not> str_contains marker buf \<Longrightarrow>
   process_file w p False =
     (case write_file (snd (read_file w p)) p (str_replace closing_tag replacement buf) of
        (Inl e, w2) \<Rightarrow> (Inl e, w2)
      | (Inr u, w2) \<Rightarrow> (Inr RetNone, w2))"
  by (cases "read_file w p") (simp add: process_file_def)

lemma process_file_rewrite:
  assumes f: "files w p = Some (RegularFile True True (Text buf))"
    and m: "\<not> str_contains marker buf"
  shows "process_file w p False =
    (Inr RetNone,
     \<lparr>files = (files w)(p \<mapsto> RegularFile True True (Text (str_replace closing_tag replacement buf))),
      trace = trace w @ [OpenRead p, ReadAll p, OpenWrite p,
                WriteAll p (str_replace closing_tag replacement buf)]\<rparr>)"
proof -
  have r: "fst (read_file w p) = Inr buf" using f by (auto simp: read_file_Inr)
  have w1: "snd (read_file w p) = w\<lparr>trace := trace w @ [OpenRead p, ReadAll p]\<rparr>"
    using r by (rule read_file_Inr_world)
  have "files (snd (read_file w p)) p = Some (RegularFile True True (Text buf))"
    using f by (simp add: read_file_files)
  then have "write_file (snd (read_file w p)) p (str_replace closing_tag replacement buf) =
     (Inr (), \<lparr>files = (files w)(p \<mapsto> RegularFile True True (Text (str_replace closing_tag replacement buf))),
      trace = trace w @ [OpenRead p, ReadAll p, OpenWrite p,
                WriteAll p (str_replace closing_tag replacement buf)]\<rparr>)"
    by (simp add: write_file_writable w1)
  then show ?thesis using process_file_unmarked [OF r m] by simp
qed

lemma process_file_files_unchanged:
  assumes "\<not> (\<exists>buf. files w p = Some (RegularFile True True (Text buf)) \<and> \<not> str_contains marker buf)"
  shows "files (snd (process_file w p False)) = files w"
proof (cases "fst (read_file w p)")
  case (Inl e)
  then show ?thesis by (simp add: process_file_read_error read_file_files)
next
  case (Inr buf)
  show ?thesis
  proof (cases "str_contains marker buf")
    case True
    then show ?thesis using Inr by (simp add: process_file_marked read_file_files)
  next
    case False
    from Inr obtain wr where f: "files w p = Some (RegularFile True wr (Text buf))"
      using read_file_Inr by blast
    with assms False have "\<not> wr" by auto
    with f have "files (snd (read_file w p)) p = Some (RegularFile True False (Text buf))"
      by (simp add: read_file_files)
    then show ?thesis using process_file_unmarked [OF Inr False]
      by (simp add: write_file_readonly read_file_files)
  qed
qed

lemma read_file_trace:
  "trace (snd (read_file w p)) = trace w @ [OpenRead p] \<or>
   trace (snd (read_file w p)) = trace w @ [OpenRead p, ReadAll p]"
  by (simp add: read_file_def log_event_def Let_def split: option.split node.split file_data.split)

lemma write_file_Inl_world:
  "fst (write_file w p buf) = Inl e \<Longrightarrow> snd (write_file w p buf) = w\<lparr>trace := trace w @ [OpenWrite p]\<rparr>"
  by (auto simp: write_file_def log_event_def Let_def split: option.splits node.splits if_splits)

lemma process_file_success:
  assumes ok: "fst (process_file w p False) = Inr r"
    and c: "content w p = Some buf"
    and m: "\<not> str_contains marker buf"
  shows "files w p = Some (RegularFile True True (Text buf))"
proof (cases "fst (read_file w p)")
  case (Inl e)
  then show ?thesis using ok by (simp add: process_file_read_error)
next
  case (Inr buf')
  then obtain wr where f: "files w p = Some (RegularFile True wr (Text buf'))"
    using read_file_Inr by blast
  with c have eq: "buf' = buf" by simp
  have "wr"
  proof (rule ccontr)
    assume "\<not> wr"
    with f have "files (snd (read_file w p)) p = Some (RegularFile True False (Text buf'))"
      by (simp add: read_file_files)
    then have "fst (process_file w p False) = Inl PermissionError"
      using process_file_unmarked [OF Inr] m eq by (simp add: write_file_readonly)
    with ok show False by simp
  qed
  with f eq show ?thesis by simp
qed

lemma single_file_at:
  "files (single_file p s) p = Some (RegularFile True True (Text s))"
  by (simp add: single_file_def)

section \<open>Properties of the method\<close>

subsection \<open>C1: the marker after a run\<close>

text \<open>
  C1, as stated, fails: a readable, writable file without the marker and without the closing
  tag is written back as it was, so the marker is still absent after the run.
\<close>

theorem marker_absent_after_run_counterexample:
  "content (single_file ''a.xml'' ''<Asset />'') ''a.xml'' = Some ''<Asset />'' \<and>
   \<not> str_contains marker ''<Asset />'' \<and>
   fst (process_file (single_file ''a.xml'' ''<Asset />'') ''a.xml'' False) = Inr RetNone \<and>
   content (snd (process_file (single_file ''a.xml'' ''<Asset />'') ''a.xml'' False)) ''a.xml''
     = Some ''<Asset />''"
proof -
  have f: "files (single_file ''a.xml'' ''<Asset />'') ''a.xml'' =
      Some (RegularFile True True (Text ''<Asset />''))"
    by (simp add: single_file_def)
  have m: "\<not> str_contains marker ''<Asset />''" by (simp add: marker_def)
  have r: "str_replace closing_tag replacement ''<Asset />'' = ''<Asset />''"
    by (simp add: closing_tag_def)
  show ?thesis using process_file_rewrite [OF f m] f m r by simp
qed

text \<open>
  C1, amended. When the text of the file lacks the marker and contains the closing tag, and
  the call without dry run ends without an I/O error, the text of the file contains the
  marker afterwards.
\<close>

theorem tagged_file_gets_marker:
  assumes "content w p = Some buf"
    and "\<not> str_contains marker buf"
    and "str_contains closing_tag buf"
    and "fst (process_file w p False) = Inr r"
  shows "\<exists>buf'. content (snd (process_file w p False)) p = Some buf' \<and> str_contains marker buf'"
proof -
  have f: "files w p = Some (RegularFile True True (Text buf))"
    using assms(4,1,2) by (rule process_file_success)
  have "content (snd (process_file w p False)) p = Some (str_replace closing_tag replacement buf)"
    by (simp add: process_file_rewrite [OF f assms(2)])
  then show ?thesis using str_replace_inserts_marker [OF assms(3)] by blast
qed

text \<open>
  C1, amended, at a file that holds one closing tag.
\<close>

theorem tagged_file_gets_marker_witness:
  "content (single_file ''a.xml'' ''<Asset>  </Asset>'') ''a.xml'' = Some ''<Asset>  </Asset>'' \<and>
   \<not> str_contains marker ''<Asset>  </Asset>'' \<and>
   str_contains closing_tag ''<Asset>  </Asset>'' \<and>
   fst (process_file (single_file ''a.xml'' ''<Asset>  </Asset>'') ''a.xml'' False) = Inr RetNone \<and>
   (\<exists>buf'. content (snd (process_file (single_file ''a.xml'' ''<Asset>  </Asset>'') ''a.xml'' False))
        ''a.xml'' = Some buf' \<and> str_contains marker buf')"
proof -
  have f: "files (single_file ''a.xml'' ''<Asset>  </Asset>'') ''a.xml'' =
      Some (RegularFile True True (Text ''<Asset>  </Asset>''))"
    by (simp add: single_file_def)
  have c: "content (single_file ''a.xml'' ''<Asset>  </Asset>'') ''a.xml'' = Some ''<Asset>  </Asset>''"
    using f by simp
  have m: "\<not> str_contains marker ''<Asset>  </Asset>''" by (simp add: marker_def)
  have t: "str_contains closing_tag ''<Asset>  </Asset>''" by (simp add: closing_tag_def)
  have ok: "fst (process_file (single_file ''a.xml'' ''<Asset>  </Asset>'') ''a.xml'' False) = Inr RetNone"
    by (simp add: process_file_rewrite [OF f m])
  show ?thesis using tagged_file_gets_marker [OF c m t ok] c m t ok by simp
qed

subsection \<open>C2: dry run\<close>

text \<open>
  C2. In dry-run mode the call changes nothing, whatever the file holds: the world it
  returns, files and trace of I/O calls alike, is the world it was given.
\<close>

theorem dryrun_leaves_world: "snd (process_file w p True) = w"
  by (simp add: process_file_def)

subsection \<open>C3: files that already hold the marker\<close>

text \<open>
  C3. When the text of the file already contains the marker, a call with either value of
  the dry-run flag leaves every file as it was and adds no write event to the trace.
\<close>

theorem marked_file_untouched:
  assumes "content w p = Some buf" and "str_contains marker buf"
  shows "files (snd (process_file w p dryrun)) = files w \<and>
         filter is_write_event (trace (snd (process_file w p dryrun))) =
           filter is_write_event (trace w)"
proof (cases dryrun)
  case True
  then show ?thesis by (simp add: process_file_def)
next
  case False
  show ?thesis
  proof (cases "fst (read_file w p)")
    case (Inl e)
    then show ?thesis using False
      by (simp add: process_file_read_error read_file_files read_file_writes)
  next
    case (Inr buf')
    then have "content w p = Some buf'" by (auto simp: read_file_Inr)
    with assms have "str_contains marker buf'" by simp
    then show ?thesis using False Inr
      by (simp add: process_file_marked read_file_files read_file_writes)
  qed
qed

text \<open>
  C3 at a file that holds the marker.
\<close>

theorem marked_file_untouched_witness:
  "content (single_file ''a.xml'' ''<Padding />'') ''a.xml'' = Some ''<Padding />'' \<and>
   str_contains marker ''<Padding />'' \<and>
   files (snd (process_file (single_file ''a.xml'' ''<Padding />'') ''a.xml'' False))
     = files (single_file ''a.xml'' ''<Padding />'') \<and>
   filter is_write_event (trace (snd (process_file (single_file ''a.xml'' ''<Padding />'') ''a.xml'' False)))
     = filter is_write_event (trace (single_file ''a.xml'' ''<Padding />''))"
proof -
  have c: "content (single_file ''a.xml'' ''<Padding />'') ''a.xml'' = Some ''<Padding />''"
    using single_file_at by simp
  have m: "str_contains marker ''<Padding />''" by (simp add: marker_def)
  show ?thesis using marked_file_untouched [OF c m, of False] c m by blast
qed

subsection \<open>C4: a second pass\<close>

text \<open>
  C4. A second pass without dry run leaves the files exactly as the first pass left them.
\<close>

theorem second_pass_fixed_point:
  "files (snd (process_file (snd (process_file w p False)) p False)) =
   files (snd (process_file w p False))"
proof (cases "\<exists>buf. files w p = Some (RegularFile True True (Text buf)) \<and> \<not> str_contains marker buf")
  case False
  then have same: "files (snd (process_file w p False)) = files w"
    by (rule process_file_files_unchanged)
  then have "\<not> (\<exists>buf. files (snd (process_file w p False)) p = Some (RegularFile True True (Text buf))
       \<and> \<not> str_contains marker buf)"
    using False by simp
  then show ?thesis by (rule process_file_files_unchanged)
next
  case True
  then obtain buf where f: "files w p = Some (RegularFile True True (Text buf))"
    and m: "\<not> str_contains marker buf" by blast
  let ?buf' = "str_replace closing_tag replacement buf"
  let ?w' = "snd (process_file w p False)"
  have f': "files ?w' = (files w)(p \<mapsto> RegularFile True True (Text ?buf'))"
    by (simp add: process_file_rewrite [OF f m])
  then have at: "files ?w' p = Some (RegularFile True True (Text ?buf'))" by simp
  show ?thesis
  proof (cases "str_contains marker ?buf'")
    case True
    then have "\<not> (\<exists>b. files ?w' p = Some (RegularFile True True (Text b)) \<and> \<not> str_contains marker b)"
      using at by simp
    then show ?thesis by (rule process_file_files_unchanged)
  next
    case False
    then have "\<not> str_contains closing_tag buf" using str_replace_inserts_marker by blast
    then have "?buf' = buf" by (rule str_replace_absent)
    then have "str_replace closing_tag replacement ?buf' = ?buf'" by simp
    then have "files (snd (process_file ?w' p False)) = (files ?w')(p \<mapsto> RegularFile True True (Text ?buf'))"
      using process_file_rewrite [OF at False] by simp
    then show ?thesis using at by (simp add: map_upd_triv)
  qed
qed

subsection \<open>C5: which occurrences are replaced\<close>

text \<open>
  C5, as stated, fails: in a text with two closing tags both receive the padding line,
  whereas a replacement of the first occurrence alone would leave the second as it was.
\<close>

theorem replaces_first_only_counterexample:
  "\<not> str_contains marker ''  </Asset>  </Asset>'' \<and>
   content (snd (process_file (single_file ''a.xml'' ''  </Asset>  </Asset>'') ''a.xml'' False)) ''a.xml''
     = Some (padding_line @ ''  </Asset>'' @ padding_line @ ''  </Asset>'') \<and>
   replace_first closing_tag replacement ''  </Asset>  </Asset>''
     = padding_line @ ''  </Asset>'' @ ''  </Asset>'' \<and>
   padding_line @ ''  </Asset>'' @ padding_line @ ''  </Asset>''
     \<noteq> padding_line @ ''  </Asset>'' @ ''  </Asset>''"
proof -
  have m: "\<not> str_contains marker ''  </Asset>  </Asset>''" by (simp add: marker_def)
  have r: "str_replace closing_tag replacement ''  </Asset>  </Asset>''
      = padding_line @ ''  </Asset>'' @ padding_line @ ''  </Asset>''"
    by (simp add: closing_tag_def replacement_def padding_line_def)
  have c: "content (snd (process_file (single_file ''a.xml'' ''  </Asset>  </Asset>'') ''a.xml'' False)) ''a.xml''
     = Some (padding_line @ ''  </Asset>'' @ padding_line @ ''  </Asset>'')"
    using process_file_rewrite [OF single_file_at m] r by simp
  have f: "replace_first closing_tag replacement ''  </Asset>  </Asset>''
     = padding_line @ ''  </Asset>'' @ ''  </Asset>''"
    by (simp add: closing_tag_def replacement_def padding_line_def)
  have d: "padding_line @ ''  </Asset>'' @ padding_line @ ''  </Asset>''
     \<noteq> padding_line @ ''  </Asset>'' @ ''  </Asset>''"
    by (simp add: padding_line_def)
  from m c f d show ?thesis by blast
qed

text \<open>
  C5, amended. Every text is a sequence of pieces free of the closing tag, separated by
  closing tags. When the text lacks the marker and the call without dry run ends without an
  I/O error, the file holds the same pieces afterwards, each separator replaced by the
  padding line followed by the closing tag: every occurrence is replaced, not the first
  alone.
\<close>

theorem substitution_replaces_every_occurrence:
  assumes "content w p = Some buf"
    and "\<not> str_contains marker buf"
    and "fst (process_file w p False) = Inr r"
  shows "(\<exists>segs. buf = str_join closing_tag segs \<and>
            list_all (\<lambda>s. \<not> str_contains closing_tag s) segs) \<and>
         (\<forall>segs. buf = str_join closing_tag segs \<and>
            list_all (\<lambda>s. \<not> str_contains closing_tag s) segs \<longrightarrow>
            content (snd (process_file w p False)) p
              = Some (str_join (padding_line @ closing_tag) segs))"
proof (intro conjI allI impI)
  show "\<exists>segs. buf = str_join closing_tag segs \<and>
          list_all (\<lambda>s. \<not> str_contains closing_tag s) segs"
    using str_join_decomposition [OF closing_tag_nonempty] by blast
next
  fix segs
  assume segs: "buf = str_join closing_tag segs \<and>
      list_all (\<lambda>s. \<not> str_contains closing_tag s) segs"
  have f: "files w p = Some (RegularFile True True (Text buf))"
    using assms(3,1,2) by (rule process_file_success)
  have "str_replace closing_tag replacement buf = str_join replacement segs"
    using segs str_replace_join by simp
  then show "content (snd (process_file w p False)) p
      = Some (str_join (padding_line @ closing_tag) segs)"
    by (simp add: process_file_rewrite [OF f assms(2)] replacement_split)
qed

text \<open>
  C5, amended, at a text with two closing tags.
\<close>

theorem substitution_replaces_every_occurrence_witness:
  "content (single_file ''a.xml'' (str_join closing_tag [''<A>'', ''<B>'', ''<C>''])) ''a.xml''
     = Some (str_join closing_tag [''<A>'', ''<B>'', ''<C>'']) \<and>
   list_all (\<lambda>s. \<not> str_contains closing_tag s) [''<A>'', ''<B>'', ''<C>''] \<and>
   \<not> str_contains marker (str_join closing_tag [''<A>'', ''<B>'', ''<C>'']) \<and>
   fst (process_file (single_file ''a.xml'' (str_join closing_tag [''<A>'', ''<B>'', ''<C>''])) ''a.xml'' False)
     = Inr RetNone \<and>
   content (snd (process_file (single_file ''a.xml'' (str_join closing_tag [''<A>'', ''<B>'', ''<C>'']))
       ''a.xml'' False)) ''a.xml''
     = Some (''<A>'' @ padding_line @ closing_tag @ ''<B>'' @ padding_line @ closing_tag @ ''<C>'')"
proof -
  let ?s = "str_join closing_tag [''<A>'', ''<B>'', ''<C>'']"
  have c: "content (single_file ''a.xml'' ?s) ''a.xml'' = Some ?s"
    using single_file_at by simp
  have l: "list_all (\<lambda>s. \<not> str_contains closing_tag s) [''<A>'', ''<B>'', ''<C>'']"
    by (simp add: closing_tag_def)
  have m: "\<not> str_contains marker ?s" by (simp add: marker_def closing_tag_def)
  have ok: "fst (process_file (single_file ''a.xml'' ?s) ''a.xml'' False) = Inr RetNone"
    by (simp only: process_file_rewrite [OF single_file_at m] fst_conv)
  have "content (snd (process_file (single_file ''a.xml'' ?s) ''a.xml'' False)) ''a.xml''
      = Some (str_join (padding_line @ closing_tag) [''<A>'', ''<B>'', ''<C>''])"
    using substitution_replaces_every_occurrence [OF c m ok] l by blast
  then show ?thesis using c l m ok by simp
qed


subsection \<open>C6: the value handed back\<close>

text \<open>
  C6. The dry-run exit and the marker exit hand back the path; the exit after the write
  hands back \<^verbatim>\<open>None\<close>, at a file that holds one closing tag and no marker.
\<close>

theorem write_branch_returns_none:
  "\<not> str_contains marker ''<Asset>  </Asset>'' \<and>
   fst (process_file (single_file ''a.xml'' ''<Asset>  </Asset>'') ''a.xml'' False) = Inr RetNone \<and>
   fst (process_file (single_file ''a.xml'' ''<Asset>  </Asset>'') ''a.xml'' True)
     = Inr (RetPath ''a.xml'') \<and>
   fst (process_file (single_file ''a.xml'' ''<Padding />'') ''a.xml'' False)
     = Inr (RetPath ''a.xml'')"
proof -
  have m: "\<not> str_contains marker ''<Asset>  </Asset>''" by (simp add: marker_def)
  have a: "fst (process_file (single_file ''a.xml'' ''<Asset>  </Asset>'') ''a.xml'' False) = Inr RetNone"
    by (simp add: process_file_rewrite [OF single_file_at m])
  have b: "fst (process_file (single_file ''a.xml'' ''<Asset>  </Asset>'') ''a.xml'' True)
     = Inr (RetPath ''a.xml'')"
    by (simp add: process_file_dryrun)
  have r: "fst (read_file (single_file ''a.xml'' ''<Padding />'') ''a.xml'') = Inr ''<Padding />''"
    using single_file_at by (auto simp: read_file_Inr)
  have "str_contains marker ''<Padding />''" by (simp add: marker_def)
  then have c: "fst (process_file (single_file ''a.xml'' ''<Padding />'') ''a.xml'' False)
     = Inr (RetPath ''a.xml'')"
    by (simp add: process_file_marked [OF r])
  from m a b c show ?thesis by blast
qed

subsection \<open>C7: the order of the dry-run test and the read\<close>

text \<open>
  C7, as stated, fails: where the file is missing, so that a read would raise, the dry-run
  call hands back the path and makes no I/O call.
\<close>

theorem dryrun_reads_first_counterexample:
  "fst (read_file no_files ''a.xml'') = Inl FileNotFoundError \<and>
   process_file no_files ''a.xml'' True = (Inr (RetPath ''a.xml''), no_files) \<and>
   trace no_files = []"
  by (simp add: read_file_def no_files_def process_file_def log_event_def)

text \<open>
  C7, amended. The dry-run flag is tested first: with the flag set the call hands back the
  path and leaves the world, trace included, as it was, so nothing is read and no read
  error can arise. Without the flag the first I/O call opens the file for reading, and an
  error of the read is the outcome of the call. The marker is tested after the read and
  before any write: a text with the marker is handed back by path with the two read events
  alone in the trace and no write event, and for a text without the marker the write is
  opened only behind the completed read.
\<close>

theorem dryrun_checked_before_read:
  "process_file w p True = (Inr (RetPath p), w) \<and>
   (\<exists>evs. trace (snd (process_file w p False)) = trace w @ OpenRead p # evs) \<and>
   (fst (read_file w p) = Inl e \<longrightarrow> fst (process_file w p False) = Inl e) \<and>
   (fst (read_file w p) = Inr buf \<and> str_contains marker buf \<longrightarrow>
      process_file w p False
        = (Inr (RetPath p), w\<lparr>trace := trace w @ [OpenRead p, ReadAll p]\<rparr>) \<and>
      filter is_write_event (trace (snd (process_file w p False)))
        = filter is_write_event (trace w)) \<and>
   (fst (read_file w p) = Inr buf \<and> \<not> str_contains marker buf \<longrightarrow>
      (\<exists>evs. trace (snd (process_file w p False))
         = trace w @ [OpenRead p, ReadAll p, OpenWrite p] @ evs))"
proof (intro conjI impI)
  show "process_file w p True = (Inr (RetPath p), w)" by (rule process_file_dryrun)
next
  show "fst (process_file w p False) = Inl e" if "fst (read_file w p) = Inl e"
    using that by (simp add: process_file_read_error)
next
  show "\<exists>evs. trace (snd (process_file w p False)) = trace w @ OpenRead p # evs"
    by (auto simp: process_file_def read_file_def write_file_def log_event_def Let_def
        split: option.split node.split file_data.split)
next
  assume a: "fst (read_file w p) = Inr buf \<and> str_contains marker buf"
  then have r: "fst (read_file w p) = Inr buf" and m: "str_contains marker buf" by simp_all
  show "process_file w p False
      = (Inr (RetPath p), w\<lparr>trace := trace w @ [OpenRead p, ReadAll p]\<rparr>)"
    using process_file_marked [OF r m] read_file_Inr_world [OF r] by simp
  then show "filter is_write_event (trace (snd (process_file w p False)))
      = filter is_write_event (trace w)"
    by simp
next
  assume a: "fst (read_file w p) = Inr buf \<and> \<not> str_contains marker buf"
  then have r: "fst (read_file w p) = Inr buf" and m: "\<not> str_contains marker buf" by simp_all
  from r obtain wr where f: "files w p = Some (RegularFile True wr (Text buf))"
    using read_file_Inr by blast
  have w1: "snd (read_file w p) = w\<lparr>trace := trace w @ [OpenRead p, ReadAll p]\<rparr>"
    using r by (rule read_file_Inr_world)
  show "\<exists>evs. trace (snd (process_file w p False))
      = trace w @ [OpenRead p, ReadAll p, OpenWrite p] @ evs"
  proof (cases wr)
    case True
    with f have "files w p = Some (RegularFile True True (Text buf))" by simp
    from process_file_rewrite [OF this m] show ?thesis by simp
  next
    case False
    with f have "files (snd (read_file w p)) p = Some (RegularFile True False (Text buf))"
      by (simp add: read_file_files)
    then show ?thesis using process_file_unmarked [OF r m]
      by (simp add: write_file_readonly w1)
  qed
qed

text \<open>
  C7, amended, at a missing file, at a file that holds the marker and at a file that
  holds a closing tag without it.
\<close>

theorem dryrun_checked_before_read_witness:
  "process_file no_files ''a.xml'' True = (Inr (RetPath ''a.xml''), no_files) \<and>
   fst (read_file no_files ''a.xml'') = Inl FileNotFoundError \<and>
   fst (process_file no_files ''a.xml'' False) = Inl FileNotFoundError \<and>
   fst (read_file (single_file ''a.xml'' ''<Padding />'') ''a.xml'') = Inr ''<Padding />'' \<and>
   str_contains marker ''<Padding />'' \<and>
   process_file (single_file ''a.xml'' ''<Padding />'') ''a.xml'' False
     = (Inr (RetPath ''a.xml''),
        (single_file ''a.xml'' ''<Padding />'')\<lparr>trace := [OpenRead ''a.xml'', ReadAll ''a.xml'']\<rparr>) \<and>
   filter is_write_event
       (trace (snd (process_file (single_file ''a.xml'' ''<Padding />'') ''a.xml'' False))) = [] \<and>
   fst (read_file (single_file ''a.xml'' ''<Asset>  </Asset>'') ''a.xml'') = Inr ''<Asset>  </Asset>'' \<and>
   \<not> str_contains marker ''<Asset>  </Asset>'' \<and>
   (\<exists>evs. trace (snd (process_file (single_file ''a.xml'' ''<Asset>  </Asset>'') ''a.xml'' False))
      = [OpenRead ''a.xml'', ReadAll ''a.xml'', OpenWrite ''a.xml''] @ evs)"
proof -
  have r0: "fst (read_file no_files ''a.xml'') = Inl FileNotFoundError"
    by (simp add: read_file_def no_files_def log_event_def)
  have a: "process_file no_files ''a.xml'' True = (Inr (RetPath ''a.xml''), no_files) \<and>
      fst (process_file no_files ''a.xml'' False) = Inl FileNotFoundError"
    using dryrun_checked_before_read [of no_files "''a.xml''" FileNotFoundError] r0 by simp
  have r1: "fst (read_file (single_file ''a.xml'' ''<Padding />'') ''a.xml'') = Inr ''<Padding />''"
    using single_file_at by (auto simp: read_file_Inr)
  have m1: "str_contains marker ''<Padding />''" by (simp add: marker_def)
  have t1: "trace (single_file ''a.xml'' ''<Padding />'') = []" by (simp add: single_file_def)
  have b: "process_file (single_file ''a.xml'' ''<Padding />'') ''a.xml'' False
       = (Inr (RetPath ''a.xml''),
          (single_file ''a.xml'' ''<Padding />'')\<lparr>trace := [OpenRead ''a.xml'', ReadAll ''a.xml'']\<rparr>) \<and>
     filter is_write_event
       (trace (snd (process_file (single_file ''a.xml'' ''<Padding />'') ''a.xml'' False))) = []"
    using dryrun_checked_before_read
      [of "single_file ''a.xml'' ''<Padding />''" "''a.xml''" FileNotFoundError "''<Padding />''",
        THEN conjunct2, THEN conjunct2, THEN conjunct2, THEN conjunct1, rule_format,
        OF conjI [OF r1 m1]]
    by (simp add: t1)
  have r2: "fst (read_file (single_file ''a.xml'' ''<Asset>  </Asset>'') ''a.xml'')
      = Inr ''<Asset>  </Asset>''"
    using single_file_at by (auto simp: read_file_Inr)
  have m2: "\<not> str_contains marker ''<Asset>  </Asset>''" by (simp add: marker_def)
  have t2: "trace (single_file ''a.xml'' ''<Asset>  </Asset>'') = []" by (simp add: single_file_def)
  have c: "\<exists>evs. trace (snd (process_file (single_file ''a.xml'' ''<Asset>  </Asset>'') ''a.xml'' False))
      = [OpenRead ''a.xml'', ReadAll ''a.xml'', OpenWrite ''a.xml''] @ evs"
    using dryrun_checked_before_read
      [of "single_file ''a.xml'' ''<Asset>  </Asset>''" "''a.xml''" FileNotFoundError
        "''<Asset>  </Asset>''",
        THEN conjunct2, THEN conjunct2, THEN conjunct2, THEN conjunct2, rule_format,
        OF conjI [OF r2 m2]]
    by (simp add: t2)
  from r0 a r1 m1 b r2 m2 c show ?thesis by blast
qed

subsection \<open>C8: I/O errors\<close>

text \<open>
  C8. An error of the read, or of the write that follows a successful read of a text
  without the marker, is the outcome of the call; the world is the one the failing
  operation left, each I/O call was made once, and the files are as they were.
\<close>

theorem io_errors_propagate:
  assumes "read_file w p = (Inl e, w') \<or>
           (\<exists>buf w1. read_file w p = (Inr buf, w1) \<and> \<not> str_contains marker buf \<and>
              write_file w1 p (str_replace closing_tag replacement buf) = (Inl e, w'))"
  shows "process_file w p False = (Inl e, w') \<and> files w' = files w \<and>
         (trace w' = trace w @ [OpenRead p] \<or>
          trace w' = trace w @ [OpenRead p, ReadAll p] \<or>
          trace w' = trace w @ [OpenRead p, ReadAll p, OpenWrite p])"
  using assms
proof (elim disjE exE conjE)
  assume r: "read_file w p = (Inl e, w')"
  then have "process_file w p False = (Inl e, w')" by (simp add: process_file_def)
  moreover have "files w' = files w" using read_file_files [of w p] r by simp
  moreover have "trace w' = trace w @ [OpenRead p] \<or> trace w' = trace w @ [OpenRead p, ReadAll p]"
    using read_file_trace [of w p] r by simp
  ultimately show ?thesis by blast
next
  fix buf w1
  assume r: "read_file w p = (Inr buf, w1)"
    and m: "\<not> str_contains marker buf"
    and wr: "write_file w1 p (str_replace closing_tag replacement buf) = (Inl e, w')"
  from r m wr have "process_file w p False = (Inl e, w')" by (simp add: process_file_def)
  moreover have w1: "w1 = w\<lparr>trace := trace w @ [OpenRead p, ReadAll p]\<rparr>"
    using read_file_Inr_world [of w p buf] r by simp
  have w': "w' = w1\<lparr>trace := trace w1 @ [OpenWrite p]\<rparr>"
    using write_file_Inl_world [of w1 p "str_replace closing_tag replacement buf" e] wr by simp
  have "files w' = files w" using w1 w' by simp
  moreover have "trace w' = trace w @ [OpenRead p, ReadAll p, OpenWrite p]"
    using w1 w' by simp
  ultimately show ?thesis by blast
qed

text \<open>
  C8 at a file that may be read but not written.
\<close>

theorem io_errors_propagate_witness:
  "read_file (read_only_file ''a.xml'' ''<Asset />'') ''a.xml''
     = (Inr ''<Asset />'', (read_only_file ''a.xml'' ''<Asset />'')\<lparr>trace := [OpenRead ''a.xml'', ReadAll ''a.xml'']\<rparr>) \<and>
   \<not> str_contains marker ''<Asset />'' \<and>
   write_file ((read_only_file ''a.xml'' ''<Asset />'')\<lparr>trace := [OpenRead ''a.xml'', ReadAll ''a.xml'']\<rparr>)
       ''a.xml'' (str_replace closing_tag replacement ''<Asset />'')
     = (Inl PermissionError,
        (read_only_file ''a.xml'' ''<Asset />'')\<lparr>trace := [OpenRead ''a.xml'', ReadAll ''a.xml'', OpenWrite ''a.xml'']\<rparr>) \<and>
   process_file (read_only_file ''a.xml'' ''<Asset />'') ''a.xml'' False
     = (Inl PermissionError,
        (read_only_file ''a.xml'' ''<Asset />'')\<lparr>trace := [OpenRead ''a.xml'', ReadAll ''a.xml'', OpenWrite ''a.xml'']\<rparr>)"
proof -
  let ?w = "read_only_file ''a.xml'' ''<Asset />''"
  let ?w1 = "?w\<lparr>trace := [OpenRead ''a.xml'', ReadAll ''a.xml'']\<rparr>"
  let ?w2 = "?w\<lparr>trace := [OpenRead ''a.xml'', ReadAll ''a.xml'', OpenWrite ''a.xml'']\<rparr>"
  have r: "read_file ?w ''a.xml'' = (Inr ''<Asset />'', ?w1)"
    by (simp add: read_file_def read_only_file_def log_event_def)
  have m: "\<not> str_contains marker ''<Asset />''" by (simp add: marker_def)
  have wr: "write_file ?w1 ''a.xml'' (str_replace closing_tag replacement ''<Asset />'')
      = (Inl PermissionError, ?w2)"
    by (simp add: write_file_def read_only_file_def log_event_def)
  have "read_file ?w ''a.xml'' = (Inl PermissionError, ?w2) \<or>
       (\<exists>buf w1. read_file ?w ''a.xml'' = (Inr buf, w1) \<and> \<not> str_contains marker buf \<and>
          write_file w1 ''a.xml'' (str_replace closing_tag replacement buf) = (Inl PermissionError, ?w2))"
    using r m wr by blast
  from io_errors_propagate [OF this] r m wr show ?thesis by blast
qed

subsection \<open>C9: the marker in unrelated text\<close>

text \<open>
  C9. Some text contains the marker and a closing tag but not the padding line; a readable
  file holding it is read, skipped and handed back by path, with no write.
\<close>

theorem unrelated_marker_skips_file:
  "\<exists>buf. str_contains marker buf \<and> str_contains closing_tag buf \<and>
     \<not> str_contains padding_line buf \<and>
     (\<forall>w p wr. files w p = Some (RegularFile True wr (Text buf)) \<longrightarrow>
        process_file w p False
          = (Inr (RetPath p), w\<lparr>trace := trace w @ [OpenRead p, ReadAll p]\<rparr>))"
proof (intro exI conjI allI impI)
  let ?buf = "''<Asset><Note>Padding</Note>  </Asset>''"
  show "str_contains marker ?buf" by (simp add: marker_def)
  show "str_contains closing_tag ?buf" by (simp add: closing_tag_def)
  show "\<not> str_contains padding_line ?buf" by (simp add: padding_line_def)
  fix w :: world and p wr
  assume f: "files w p = Some (RegularFile True wr (Text ?buf))"
  then have r: "fst (read_file w p) = Inr ?buf" by (auto simp: read_file_Inr)
  have "str_contains marker ?buf" by (simp add: marker_def)
  then show "process_file w p False
          = (Inr (RetPath p), w\<lparr>trace := trace w @ [OpenRead p, ReadAll p]\<rparr>)"
    using process_file_marked [OF r] read_file_Inr_world [OF r] by simp
qed

text \<open>
  C9 at a world holding one such file.
\<close>

theorem unrelated_marker_skips_file_witness:
  "\<exists>buf. str_contains marker buf \<and> str_contains closing_tag buf \<and>
     \<not> str_contains padding_line buf \<and>
     files (single_file ''a.xml'' buf) ''a.xml'' = Some (RegularFile True True (Text buf)) \<and>
     process_file (single_file ''a.xml'' buf) ''a.xml'' False
       = (Inr (RetPath ''a.xml''),
          (single_file ''a.xml'' buf)\<lparr>trace := [OpenRead ''a.xml'', ReadAll ''a.xml'']\<rparr>)"
proof -
  from unrelated_marker_skips_file obtain buf where
    b: "str_contains marker buf" "str_contains closing_tag buf" "\<not> str_contains padding_line buf"
    and all: "\<forall>w p wr. files w p = Some (RegularFile True wr (Text buf)) \<longrightarrow>
        process_file w p False
          = (Inr (RetPath p), w\<lparr>trace := trace w @ [OpenRead p, ReadAll p]\<rparr>)"
    by blast
  have f: "files (single_file ''a.xml'' buf) ''a.xml'' = Some (RegularFile True True (Text buf))"
    by (rule single_file_at)
  have t: "trace (single_file ''a.xml'' buf) = []" by (simp add: single_file_def)
  from all f have "process_file (single_file ''a.xml'' buf) ''a.xml'' False
     = (Inr (RetPath ''a.xml''),
        (single_file ''a.xml'' buf)\<lparr>trace := trace (single_file ''a.xml'' buf) @ [OpenRead ''a.xml'', ReadAll ''a.xml'']\<rparr>)"
    by blast
  with t have "process_file (single_file ''a.xml'' buf) ''a.xml'' False
     = (Inr (RetPath ''a.xml''),
        (single_file ''a.xml'' buf)\<lparr>trace := [OpenRead ''a.xml'', ReadAll ''a.xml'']\<rparr>)"
    by simp
  with b f show ?thesis by blast
qed

subsection \<open>C10: files with neither marker nor closing tag\<close>



end
